theory Spec2Isabelle
  imports Complex_Main "HOL-Library.Multiset"
begin

section \<open>The occupancy grid\<close>

text \<open>
  The plugin keeps one module-level array \<^verbatim>\<open>grid\<close>: an array of rows, each row a sparse
  array holding an element id or \<^verbatim>\<open>undefined\<close>. A row is a list of optional ids; reading
  past its end yields \<^verbatim>\<open>undefined\<close> (\<open>None\<close>), writing past its end extends it, as a
  JavaScript array does. A size is the pair \<^verbatim>\<open>[rows, cols]\<close> (index \<^verbatim>\<open>X = 0\<close>, \<^verbatim>\<open>Y = 1\<close>),
  a position the pair \<^verbatim>\<open>[row, column]\<close>.
\<close>

type_synonym dims = "nat \<times> nat"
type_synonym position = "nat \<times> nat"
type_synonym row = "nat option list"
type_synonym grid = "row list"

definition row_get :: "row \<Rightarrow> nat \<Rightarrow> nat option" where
  "row_get r j = (if j < length r then r ! j else None)"

definition row_set :: "row \<Rightarrow> nat \<Rightarrow> nat option \<Rightarrow> row" where
  "row_set r j v = (r @ replicate (Suc j - length r) None)[j := v]"

text \<open>
  \<open>cell g i j\<close> is the read \<^verbatim>\<open>grid[i] !== undefined && grid[i][j]\<close>: a row that is not
  materialised has no occupant.
\<close>

definition cell :: "grid \<Rightarrow> nat \<Rightarrow> nat \<Rightarrow> nat option" where
  "cell g i j = (if i < length g then row_get (g ! i) j else None)"

subsection \<open>firstEmptySpace\<close>

fun firstEmptySpace_cols :: "row \<Rightarrow> nat list \<Rightarrow> nat option" where
  "firstEmptySpace_cols r [] = None"
| "firstEmptySpace_cols r (j # js) =
     (if row_get r j = None then Some j else firstEmptySpace_cols r js)"

fun firstEmptySpace_rows :: "nat \<Rightarrow> grid \<Rightarrow> nat list \<Rightarrow> position option" where
  "firstEmptySpace_rows cols g [] = None"
| "firstEmptySpace_rows cols g (i # is) =
     (case firstEmptySpace_cols (g ! i) [0..<cols] of
        Some j \<Rightarrow> Some (i, j)
      | None \<Rightarrow> firstEmptySpace_rows cols g is)"

definition firstEmptySpace :: "nat \<Rightarrow> grid \<Rightarrow> position" where
  "firstEmptySpace cols g =
     (case firstEmptySpace_rows cols g [0..<length g] of
        Some p \<Rightarrow> p
      | None \<Rightarrow> (length g, 0))"

subsection \<open>isAllocable\<close>

text \<open>
  The width check comes first and is written over the integers as in the source
  (\<^verbatim>\<open>pos[Y] + size[Y] - 1 >= s.cols\<close>); the nested loops return \<^verbatim>\<open>false\<close> at the first
  cell that is taken. An id is a number, so \<^verbatim>\<open>grid[i][j] >= 0\<close> holds exactly when the cell
  has an occupant.
\<close>

definition isAllocable :: "nat \<Rightarrow> grid \<Rightarrow> dims \<Rightarrow> position \<Rightarrow> bool" where
  "isAllocable cols g sz pos =
     (if int (snd pos) + int (snd sz) - 1 \<ge> int cols then False
      else list_all (\<lambda>i. list_all (\<lambda>j. \<not> (i < length g \<and> row_get (g ! i) j \<noteq> None))
                             [snd pos ..< snd pos + snd sz])
             [fst pos ..< fst pos + fst sz])"

section \<open>The size selector\<close>

text \<open>
  Size pools are JavaScript arrays, passed by reference and permuted in place by
  \<^verbatim>\<open>shuffle\<close>. The model keeps them in a store from addresses to arrays; \<^verbatim>\<open>s.sizes\<close> and every
  \<^verbatim>\<open>s.classSizes[key]\<close> are addresses. The \<open>k\<close>-th call of \<^verbatim>\<open>Math.random()\<close> returns \<open>rnd k\<close>,
  a number in \<open>[0, 1)\<close>; the state counts the calls made so far.
\<close>

type_synonym addr = nat
type_synonym heap = "addr \<Rightarrow> dims list"

record config =
  el_id :: nat
  el_pos :: position
  el_rows :: nat
  el_cols :: nat

record state =
  st_grid :: grid
  st_heap :: heap
  st_calls :: nat
  st_id :: nat
  st_data :: "config list"

record settings =
  s_cols :: nat
  s_sizes :: addr
  s_startsWith :: "nat \<rightharpoonup> dims"
  s_classSizes :: "(string \<times> addr) list"

definition unit_random :: "(nat \<Rightarrow> rat) \<Rightarrow> bool" where
  "unit_random rnd = (\<forall>k. 0 \<le> rnd k \<and> rnd k < 1)"

fun shuffle_loop :: "(nat \<Rightarrow> rat) \<Rightarrow> nat \<Rightarrow> nat \<Rightarrow> 'a list \<Rightarrow> 'a list \<times> nat" where
  "shuffle_loop rnd 0 k array = (array, k)"
| "shuffle_loop rnd (Suc currentIndex) k array =
     (let randomIndex = nat \<lfloor>rnd k * of_nat (Suc currentIndex)\<rfloor>;
          temporaryValue = array ! currentIndex;
          array1 = array[currentIndex := array ! randomIndex];
          array2 = array1[randomIndex := temporaryValue]
      in shuffle_loop rnd currentIndex (Suc k) array2)"

definition shuffle :: "(nat \<Rightarrow> rat) \<Rightarrow> addr \<Rightarrow> state \<Rightarrow> state" where
  "shuffle rnd array st =
     (case shuffle_loop rnd (length (st_heap st array)) (st_calls st) (st_heap st array) of
        (shuffled, k) \<Rightarrow> st\<lparr>st_heap := (st_heap st)(array := shuffled), st_calls := k\<rparr>)"

fun getRandomSize_loop :: "nat \<Rightarrow> grid \<Rightarrow> position \<Rightarrow> dims list \<Rightarrow> dims" where
  "getRandomSize_loop cols g pos [] = (1, 1)"
| "getRandomSize_loop cols g pos (sz # sizes) =
     (if isAllocable cols g sz pos then sz else getRandomSize_loop cols g pos sizes)"

definition getRandomSize ::
  "nat \<Rightarrow> (nat \<Rightarrow> rat) \<Rightarrow> position \<Rightarrow> nat \<Rightarrow> addr \<Rightarrow> state \<Rightarrow> dims \<times> state" where
  "getRandomSize cols rnd pos elementsRemaining sizes st =
     (let st1 = shuffle rnd sizes st in
      if elementsRemaining = 1 then ((1, 1), st1)
      else (getRandomSize_loop cols (st_grid st1) pos (st_heap st1 sizes), st1))"

section \<open>The first-fit packer\<close>

text \<open>
  An element of the input is the list of its CSS classes. The loop over
  \<^verbatim>\<open>s.classSizes\<close> visits the keys in order; \<^verbatim>\<open>stringify\<close> joins the two numbers of a size,
  so the \<^verbatim>\<open>indexOf\<close> test is membership of the size in the class pool.
\<close>

fun classSizes_loop ::
  "nat \<Rightarrow> (nat \<Rightarrow> rat) \<Rightarrow> position \<Rightarrow> nat \<Rightarrow> string list \<Rightarrow> (string \<times> addr) list \<Rightarrow>
     dims \<Rightarrow> state \<Rightarrow> dims \<times> state" where
  "classSizes_loop cols rnd pos remaining classes [] sz st = (sz, st)"
| "classSizes_loop cols rnd pos remaining classes ((key, pool) # rest) sz st =
     (let sizeInClassSizes = (sz \<in> set (st_heap st pool)) in
      if key \<in> set classes \<and> \<not> sizeInClassSizes
      then (case getRandomSize cols rnd pos remaining pool st of
              (sz', st') \<Rightarrow> classSizes_loop cols rnd pos remaining classes rest sz' st')
      else classSizes_loop cols rnd pos remaining classes rest sz st)"

definition resolve_size ::
  "settings \<Rightarrow> (nat \<Rightarrow> rat) \<Rightarrow> nat \<Rightarrow> nat \<Rightarrow> string list \<Rightarrow> position \<Rightarrow> state \<Rightarrow> dims \<times> state" where
  "resolve_size s rnd n i classes pos st =
     (case getRandomSize (s_cols s) rnd pos (n - i) (s_sizes s) st of
        (size0, st1) \<Rightarrow>
          (let size1 = (case s_startsWith s i of Some pinned \<Rightarrow> pinned | None \<Rightarrow> size0)
           in classSizes_loop (s_cols s) rnd pos (n - i) classes (s_classSizes s) size1 st1))"

text \<open>
  Marking: \<^verbatim>\<open>grid[i] = []\<close> materialises a missing row. The packer only ever marks from a
  position returned by \<^verbatim>\<open>firstEmptySpace\<close>, whose row is at most \<^verbatim>\<open>grid.length\<close>, so the rows
  stay contiguous and a missing row is always the next one.
\<close>

definition mark_cols :: "row \<Rightarrow> nat list \<Rightarrow> nat option \<Rightarrow> row" where
  "mark_cols r js v = fold (\<lambda>j r'. row_set r' j v) js r"

definition mark_row :: "nat list \<Rightarrow> nat \<Rightarrow> nat \<Rightarrow> grid \<Rightarrow> grid" where
  "mark_row js ident i g =
     (let g1 = (if i < length g then g else g @ replicate (Suc i - length g) [])
      in g1[i := mark_cols (g1 ! i) js (Some ident)])"

definition mark :: "grid \<Rightarrow> config \<Rightarrow> grid" where
  "mark g c =
     fold (mark_row [snd (el_pos c) ..< snd (el_pos c) + el_cols c] (el_id c))
       [fst (el_pos c) ..< fst (el_pos c) + el_rows c] g"

definition each_body ::
  "settings \<Rightarrow> (nat \<Rightarrow> rat) \<Rightarrow> nat \<Rightarrow> nat \<Rightarrow> string list \<Rightarrow> state \<Rightarrow> state" where
  "each_body s rnd n i classes st =
     (let pos = firstEmptySpace (s_cols s) (st_grid st) in
      case resolve_size s rnd n i classes pos st of
        (sz, st2) \<Rightarrow>
          (let c = \<lparr>el_id = st_id st2, el_pos = pos, el_rows = fst sz, el_cols = snd sz\<rparr>
           in st2\<lparr>st_grid := mark (st_grid st2) c,
                  st_id := Suc (st_id st2),
                  st_data := st_data st2 @ [c]\<rparr>))"

fun each_loop ::
  "settings \<Rightarrow> (nat \<Rightarrow> rat) \<Rightarrow> nat \<Rightarrow> nat \<Rightarrow> string list list \<Rightarrow> state \<Rightarrow> state" where
  "each_loop s rnd n i [] st = st"
| "each_loop s rnd n i (classes # elements) st =
     each_loop s rnd n (Suc i) elements (each_body s rnd n i classes st)"

section \<open>The grid normaliser\<close>

text \<open>
  Reading or writing \<^verbatim>\<open>grid[i][j]\<close> when \<^verbatim>\<open>grid[i]\<close> is \<^verbatim>\<open>undefined\<close> throws a TypeError in
  JavaScript, and so does reading the data of an element that does not exist; so does
  \<^verbatim>\<open>$.error\<close>, which the plugin calls for a container with \<^verbatim>\<open>position: fixed\<close>.
\<close>

datatype error = TypeError | FixedPosition

definition read_cell :: "grid \<Rightarrow> nat \<Rightarrow> nat \<Rightarrow> error + nat option" where
  "read_cell g i j = (if i < length g then Inr (row_get (g ! i) j) else Inl TypeError)"

text \<open>
  \<^verbatim>\<open>shrinkRows($element, shrinkTo)\<close>: the rows \<^verbatim>\<open>shrinkTo + 1\<close> to \<^verbatim>\<open>pos[X] + currentRows - 1\<close> of
  the element's columns are cleared and its row count becomes \<^verbatim>\<open>shrinkTo - pos[X] + 1\<close>.
  \<^verbatim>\<open>shrinkTo\<close> is \<open>-1\<close> when the last element sits in row 0, hence an integer. The element is
  given by its index in \<^verbatim>\<open>$elements\<close>, which is its id. Row counts are natural numbers in
  the model; the source's new count is negative only for an element that starts below
  row \<^verbatim>\<open>shrinkTo + 1\<close>, and the passes call \<^verbatim>\<open>shrinkRows\<close> for an element found in that row.
\<close>

fun shrinkRows_loop :: "nat list \<Rightarrow> nat list \<Rightarrow> grid \<Rightarrow> error + grid" where
  "shrinkRows_loop [] js g = Inr g"
| "shrinkRows_loop (i # is) js g =
     (if js = [] then shrinkRows_loop is js g
      else if i < length g then shrinkRows_loop is js (g[i := mark_cols (g ! i) js None])
      else Inl TypeError)"

definition shrinkRows :: "nat \<Rightarrow> int \<Rightarrow> state \<Rightarrow> error + state" where
  "shrinkRows element shrinkTo st =
     (if element < length (st_data st) then
        (let d = st_data st ! element;
             currentRows = el_rows d;
             cols = el_cols d;
             pos = el_pos d
         in case shrinkRows_loop [nat (shrinkTo + 1) ..< fst pos + currentRows]
                   [snd pos ..< snd pos + cols] (st_grid st) of
              Inl err \<Rightarrow> Inl err
            | Inr g \<Rightarrow>
                Inr (st\<lparr>st_grid := g,
                        st_data := (st_data st)
                          [element := d\<lparr>el_rows := nat (shrinkTo - int (fst pos) + 1)\<rparr>]\<rparr>))
      else Inl TypeError)"

text \<open>
  The loop of the first and of the second pass: for each column \<open>i\<close> of the list, an
  occupant of \<^verbatim>\<open>grid[r][i]\<close> is shrunk to end at row \<^verbatim>\<open>r - 1\<close>.
\<close>

fun shrink_loop :: "nat list \<Rightarrow> nat \<Rightarrow> state \<Rightarrow> error + state" where
  "shrink_loop [] r st = Inr st"
| "shrink_loop (i # is) r st =
     (case read_cell (st_grid st) r i of
        Inl err \<Rightarrow> Inl err
      | Inr None \<Rightarrow> shrink_loop is r st
      | Inr (Some element) \<Rightarrow>
          (case shrinkRows element (int r - 1) st of
             Inl err \<Rightarrow> Inl err
           | Inr st' \<Rightarrow> shrink_loop is r st'))"

fun allFilled_loop :: "nat list \<Rightarrow> nat \<Rightarrow> grid \<Rightarrow> bool \<Rightarrow> error + bool" where
  "allFilled_loop [] r g allFilled = Inr allFilled"
| "allFilled_loop (i # is) r g allFilled =
     (case read_cell g r i of
        Inl err \<Rightarrow> Inl err
      | Inr v \<Rightarrow> allFilled_loop is r g (allFilled \<and> v \<noteq> None))"

fun expand_loop :: "nat list \<Rightarrow> nat list \<Rightarrow> nat \<Rightarrow> grid \<Rightarrow> error + grid" where
  "expand_loop [] js ident g = Inr g"
| "expand_loop (i # is) js ident g =
     (if js = [] then expand_loop is js ident g
      else if i < length g then expand_loop is js ident (g[i := mark_cols (g ! i) js (Some ident)])
      else Inl TypeError)"

definition pass1 :: "position \<Rightarrow> nat \<Rightarrow> state \<Rightarrow> error + state" where
  "pass1 posLast rowsLast st =
     (if fst posLast + rowsLast < length (st_grid st)
      then shrink_loop [0 ..< snd posLast] (fst posLast + rowsLast) st
      else Inr st)"

definition pass2 :: "nat \<Rightarrow> position \<Rightarrow> nat \<Rightarrow> state \<Rightarrow> error + state" where
  "pass2 cols posLast colsLast st =
     (case allFilled_loop [snd posLast + colsLast ..< cols] (fst posLast) (st_grid st) True of
        Inl err \<Rightarrow> Inl err
      | Inr allFilled \<Rightarrow>
          if \<not> allFilled then shrink_loop [snd posLast + colsLast ..< cols] (fst posLast) st
          else Inr st)"

definition pass3 :: "nat \<Rightarrow> nat \<Rightarrow> position \<Rightarrow> nat \<Rightarrow> nat \<Rightarrow> state \<Rightarrow> error + state" where
  "pass3 cols lastIx posLast rowsLast colsLast st =
     (case allFilled_loop [snd posLast + colsLast ..< cols] (fst posLast) (st_grid st) True of
        Inl err \<Rightarrow> Inl err
      | Inr allFilled \<Rightarrow>
          if \<not> allFilled then
            (case expand_loop [fst posLast ..< fst posLast + rowsLast]
                    [snd posLast + colsLast ..< cols] (el_id (st_data st ! lastIx)) (st_grid st) of
               Inl err \<Rightarrow> Inl err
             | Inr g \<Rightarrow>
                 Inr (st\<lparr>st_grid := g,
                         st_data := (st_data st)
                           [lastIx := (st_data st ! lastIx)\<lparr>el_cols := cols - snd posLast\<rparr>]\<rparr>))
          else Inr st)"

text \<open>
  \<^verbatim>\<open>posLast\<close>, \<^verbatim>\<open>rowsLast\<close> and \<^verbatim>\<open>colsLast\<close> are read once, before the passes. The final
  \<^verbatim>\<open>splice\<close> keeps the first \<^verbatim>\<open>posLast[X] + rowsLast\<close> rows.
\<close>

definition normalize :: "nat \<Rightarrow> state \<Rightarrow> error + state" where
  "normalize cols st =
     (let lastIx = length (st_data st) - 1;
          posLast = el_pos (st_data st ! lastIx);
          rowsLast = el_rows (st_data st ! lastIx);
          colsLast = el_cols (st_data st ! lastIx)
      in case pass1 posLast rowsLast st of
           Inl err \<Rightarrow> Inl err
         | Inr st1 \<Rightarrow>
             (case pass2 cols posLast colsLast st1 of
                Inl err \<Rightarrow> Inl err
              | Inr st2 \<Rightarrow>
                  (case pass3 cols lastIx posLast rowsLast colsLast st2 of
                     Inl err \<Rightarrow> Inl err
                   | Inr st3 \<Rightarrow>
                       Inr (st3\<lparr>st_grid := take (fst posLast + rowsLast) (st_grid st3)\<rparr>))))"

section \<open>Boundary extraction and line merging\<close>

text \<open>
  A segment is drawn as one line: \<open>(track, start, end)\<close>. For a vertical line the track is
  the column \<open>y\<close> whose right border carries it and \<open>start .. end\<close> are rows; for a horizontal
  line the track is the row \<open>x\<close> whose bottom border carries it and \<open>start .. end\<close> are
  columns. The variables \<^verbatim>\<open>start\<close> and \<^verbatim>\<open>end\<close> are \<^verbatim>\<open>null\<close> together or set together at
  every loop test, so the model keeps them as one optional pair.

  \<^verbatim>\<open>isTopFrontier(x, y)\<close> reads \<^verbatim>\<open>grid[x]\<close> and \<^verbatim>\<open>grid[x + 1]\<close> unguarded; the horizontal pass
  calls it for \<^verbatim>\<open>x < grid.length - 1\<close> only, where both rows exist.
\<close>

type_synonym segment = "nat \<times> nat \<times> nat"

definition isRightFrontier :: "grid \<Rightarrow> nat \<Rightarrow> nat \<Rightarrow> bool" where
  "isRightFrontier g x y = (x < length g \<and> row_get (g ! x) y \<noteq> row_get (g ! x) (y + 1))"

definition isTopFrontier :: "grid \<Rightarrow> nat \<Rightarrow> nat \<Rightarrow> bool" where
  "isTopFrontier g x y = (cell g x y \<noteq> cell g (x + 1) y)"

function vertical_inner ::
  "grid \<Rightarrow> nat \<Rightarrow> nat \<Rightarrow> (nat \<times> nat) option \<Rightarrow> nat \<times> (nat \<times> nat) option" where
  "vertical_inner g y x run =
     (if isRightFrontier g x y
      then vertical_inner g y (Suc x)
             (case run of None \<Rightarrow> Some (x, x) | Some (start, e) \<Rightarrow> Some (start, x))
      else (Suc x, run))"
  by pat_completeness auto
termination
  by (relation "measure (\<lambda>(g, y, x, run). length g - x)") (auto simp: isRightFrontier_def)

declare vertical_inner.simps [simp del]

lemma vertical_inner_advances: "x < fst (vertical_inner g y x run)"
proof (induction g y x run rule: vertical_inner.induct)
  case (1 g y x run)
  show ?case
  proof (cases "isRightFrontier g x y")
    case True
    with "1" show ?thesis by (subst vertical_inner.simps) (simp add: Suc_lessD)
  next
    case False
    then show ?thesis by (subst vertical_inner.simps) simp
  qed
qed

lemma vertical_inner_advances_eq: "(x', r) = vertical_inner g y x run \<Longrightarrow> x < x'"
  using vertical_inner_advances[of x g y run] by (cases "vertical_inner g y x run") auto

function vertical_outer :: "grid \<Rightarrow> nat \<Rightarrow> nat \<Rightarrow> segment list \<Rightarrow> segment list" where
  "vertical_outer g y x acc =
     (if x < length g then
        (case vertical_inner g y x None of
           (x', None) \<Rightarrow> vertical_outer g y x' acc
         | (x', Some (start, e)) \<Rightarrow> vertical_outer g y x' (acc @ [(y, start, e)]))
      else acc)"
  by pat_completeness auto
termination
  by (relation "measure (\<lambda>(g, y, x, acc). length g - x)")
     (auto dest: vertical_inner_advances_eq)

declare vertical_outer.simps [simp del]

definition vertical_lines :: "grid \<Rightarrow> nat \<Rightarrow> segment list" where
  "vertical_lines g cols = fold (\<lambda>y acc. vertical_outer g y 0 acc) [0 ..< cols - 1] []"

definition row_length :: "grid \<Rightarrow> nat \<Rightarrow> nat" where
  "row_length g i = (if i < length g then length (g ! i) else 0)"

lemma isTopFrontier_in_row:
  "isTopFrontier g x y \<Longrightarrow> y < max (row_length g x) (row_length g (x + 1))"
  by (auto simp: isTopFrontier_def cell_def row_get_def row_length_def split: if_splits)

function horizontal_inner ::
  "grid \<Rightarrow> nat \<Rightarrow> nat \<Rightarrow> (nat \<times> nat) option \<Rightarrow> segment list \<Rightarrow>
     nat \<times> (nat \<times> nat) option \<times> segment list" where
  "horizontal_inner g x y run acc =
     (if isTopFrontier g x y then
        (case run of
           None \<Rightarrow> horizontal_inner g x (Suc y) (Some (y, y)) acc
         | Some (start, e) \<Rightarrow>
             if isRightFrontier g x (y - 1) \<and> isRightFrontier g (x + 1) (y - 1)
             then horizontal_inner g x (Suc y) (Some (y, y)) (acc @ [(x, start, e)])
             else horizontal_inner g x (Suc y) (Some (start, y)) acc)
      else (Suc y, run, acc))"
  by pat_completeness auto
termination
  by (relation "measure (\<lambda>(g, x, y, run, acc). max (row_length g x) (row_length g (x + 1)) - y)")
     (auto dest: isTopFrontier_in_row)

declare horizontal_inner.simps [simp del]

lemma horizontal_inner_advances: "y < fst (horizontal_inner g x y run acc)"
proof (induction g x y run acc rule: horizontal_inner.induct)
  case (1 g x y run acc)
  show ?case
  proof (cases "isTopFrontier g x y")
    case True
    show ?thesis
    proof (cases run)
      case None
      from "1.IH"(1)[OF True None] True None show ?thesis
        by (subst horizontal_inner.simps) (simp add: Suc_lessD)
    next
      case (Some p)
      obtain start e where p: "p = (start, e)" by (cases p)
      show ?thesis
      proof (cases "isRightFrontier g x (y - 1) \<and> isRightFrontier g (x + 1) (y - 1)")
        case split: True
        from "1.IH"(2)[OF True Some[unfolded p] refl split] True Some p split show ?thesis
          by (subst horizontal_inner.simps) (simp add: Suc_lessD)
      next
        case nosplit: False
        from "1.IH"(3)[OF True Some[unfolded p] refl nosplit] True Some p nosplit show ?thesis
          by (subst horizontal_inner.simps) (auto simp add: Suc_lessD)
      qed
    qed
  next
    case False
    then show ?thesis by (subst horizontal_inner.simps) simp
  qed
qed

lemma horizontal_inner_advances_eq:
  "(y', r) = horizontal_inner g x y run acc \<Longrightarrow> y < y'"
  using horizontal_inner_advances[of y g x run acc] by (cases "horizontal_inner g x y run acc") auto

function horizontal_outer ::
  "grid \<Rightarrow> nat \<Rightarrow> nat \<Rightarrow> nat \<Rightarrow> segment list \<Rightarrow> segment list" where
  "horizontal_outer g cols x y acc =
     (if x < length g \<and> y < cols then
        (case horizontal_inner g x y None acc of
           (y', None, acc') \<Rightarrow> horizontal_outer g cols x y' acc'
         | (y', Some (start, e), acc') \<Rightarrow> horizontal_outer g cols x y' (acc' @ [(x, start, e)]))
      else acc)"
  by pat_completeness auto
termination
  by (relation "measure (\<lambda>(g, cols, x, y, acc). cols - y)")
     (auto dest: horizontal_inner_advances_eq)

declare horizontal_outer.simps [simp del]

definition horizontal_lines :: "grid \<Rightarrow> nat \<Rightarrow> segment list" where
  "horizontal_lines g cols = fold (\<lambda>x acc. horizontal_outer g cols x 0 acc) [0 ..< length g - 1] []"

text \<open>
  A horizontal line \<open>(x, hstart, hend)\<close> runs below row \<open>x\<close> from the left edge of column
  \<open>hstart\<close> to the right edge of column \<open>hend\<close>; a vertical line \<open>(y, vstart, vend)\<close> runs
  right of column \<open>y\<close> from the top of row \<open>vstart\<close> to the bottom of row \<open>vend\<close>. They cross
  at an interior point when the horizontal line passes from column \<open>y\<close> to \<open>y + 1\<close> and the
  vertical line passes from row \<open>x\<close> to \<open>x + 1\<close>. The other three predicates describe
  well-formed runs; they are used to state what the two passes emit.
\<close>

definition crosses :: "segment \<Rightarrow> segment \<Rightarrow> bool" where
  "crosses h v =
     (case h of (x, hstart, hend) \<Rightarrow>
        case v of (y, vstart, vend) \<Rightarrow>
          hstart \<le> y \<and> y < hend \<and> vstart \<le> x \<and> x < vend)"

definition vseg_ok :: "grid \<Rightarrow> segment \<Rightarrow> bool" where
  "vseg_ok g v = (case v of (y, start, e) \<Rightarrow> \<forall>r. start \<le> r \<and> r \<le> e \<longrightarrow> isRightFrontier g r y)"

definition hrun_ok :: "grid \<Rightarrow> nat \<Rightarrow> nat \<Rightarrow> nat \<Rightarrow> bool" where
  "hrun_ok g x start e =
     ((\<forall>c. start \<le> c \<and> c \<le> e \<longrightarrow> isTopFrontier g x c) \<and>
      (\<forall>c. start \<le> c \<and> c < e \<longrightarrow> \<not> (isRightFrontier g x c \<and> isRightFrontier g (x + 1) c)))"

definition hseg_ok :: "grid \<Rightarrow> segment \<Rightarrow> bool" where
  "hseg_ok g h =
     (case h of (x, start, e) \<Rightarrow>
        hrun_ok g x start e \<and>
        (isTopFrontier g x (e + 1) \<longrightarrow> isRightFrontier g x e \<and> isRightFrontier g (x + 1) e))"

section \<open>The plugin\<close>

text \<open>
  The result of a call: the final grid, the data stored on the elements (the
  placements, in insertion order), the vertical and the horizontal lines drawn, in the
  order they are drawn, and the store holding the size pools. The total height set at
  the end is \<^verbatim>\<open>grid.length\<close> rows. With no element the plugin returns before anything is
  computed.
\<close>

record layout_result =
  out_grid :: grid
  out_data :: "config list"
  out_vLines :: "segment list"
  out_hLines :: "segment list"
  out_heap :: heap

definition totalRows :: "layout_result \<Rightarrow> nat" where
  "totalRows r = length (out_grid r)"

definition layout ::
  "settings \<Rightarrow> heap \<Rightarrow> (nat \<Rightarrow> rat) \<Rightarrow> string list list \<Rightarrow> error + layout_result" where
  "layout s h rnd elements =
     (if elements = []
      then Inr \<lparr>out_grid = [], out_data = [], out_vLines = [], out_hLines = [], out_heap = h\<rparr>
      else
        (case normalize (s_cols s)
                (each_loop s rnd (length elements) 0 elements
                   \<lparr>st_grid = [], st_heap = h, st_calls = 0, st_id = 0, st_data = []\<rparr>) of
           Inl err \<Rightarrow> Inl err
         | Inr st \<Rightarrow>
             Inr \<lparr>out_grid = st_grid st,
                  out_data = st_data st,
                  out_vLines = vertical_lines (st_grid st) (s_cols s),
                  out_hLines = horizontal_lines (st_grid st) (s_cols s),
                  out_heap = st_heap st\<rparr>))"

datatype css_position = Static | Relative | Absolute | Fixed | Sticky

definition fn_grid ::
  "css_position \<Rightarrow> settings \<Rightarrow> heap \<Rightarrow> (nat \<Rightarrow> rat) \<Rightarrow> string list list \<Rightarrow>
     error + layout_result" where
  "fn_grid position s h rnd elements =
     (if position = Fixed then Inl FixedPosition else layout s h rnd elements)"

section \<open>The position-scanning variant\<close>

text \<open>
  \<^verbatim>\<open>src/js/grid.js\<close> reads each element's \<^verbatim>\<open>rows\<close> and \<^verbatim>\<open>cols\<close> from its data attributes,
  numbers the elements from 1, and advances a position from \<^verbatim>\<open>[0, 0]\<close> until the element
  is allocable there. Its \<^verbatim>\<open>isAllocable\<close> tests the cell for truthiness. The loop may run
  forever, so it is a partial function: \<open>None\<close> is "does not return". Marking the cells
  is the same code as in the first-fit variant. The model covers the placement of the
  elements; the arrays \<^verbatim>\<open>hLines\<close> and \<^verbatim>\<open>vLines\<close> this variant derives from the placements,
  and the lines drawn from them, are not part of it.
\<close>

definition truthy :: "nat option \<Rightarrow> bool" where
  "truthy v = (case v of None \<Rightarrow> False | Some n \<Rightarrow> n \<noteq> 0)"

definition isAllocable_scan :: "nat \<Rightarrow> grid \<Rightarrow> dims \<Rightarrow> position \<Rightarrow> bool" where
  "isAllocable_scan cols g element pos =
     (if int (snd pos) + int (snd element) - 1 \<ge> int cols then False
      else list_all (\<lambda>i. list_all (\<lambda>j. \<not> (i < length g \<and> truthy (row_get (g ! i) j)))
                             [snd pos ..< snd pos + snd element])
             [fst pos ..< fst pos + fst element])"

partial_function (option) find_position ::
  "nat \<Rightarrow> grid \<Rightarrow> dims \<Rightarrow> position \<Rightarrow> position option" where
  "find_position cols g element pos =
     (if \<not> isAllocable_scan cols g element pos then
        (if snd pos < cols
         then find_position cols g element (fst pos, snd pos + 1)
         else find_position cols g element (fst pos + 1, 0))
      else Some pos)"

declare find_position.simps [code]

record scan_state =
  sc_grid :: grid
  sc_id :: nat
  sc_placed :: "config list"

definition each_body_scan :: "nat \<Rightarrow> dims \<Rightarrow> scan_state \<Rightarrow> scan_state option" where
  "each_body_scan cols element st =
     (let ident = Suc (sc_id st) in
      case find_position cols (sc_grid st) element (0, 0) of
        None \<Rightarrow> None
      | Some pos \<Rightarrow>
          (let c = \<lparr>el_id = ident, el_pos = pos, el_rows = fst element, el_cols = snd element\<rparr>
           in Some \<lparr>sc_grid = mark (sc_grid st) c, sc_id = ident,
                    sc_placed = sc_placed st @ [c]\<rparr>))"

fun each_loop_scan :: "nat \<Rightarrow> dims list \<Rightarrow> scan_state \<Rightarrow> scan_state option" where
  "each_loop_scan cols [] st = Some st"
| "each_loop_scan cols (element # elements) st =
     (case each_body_scan cols element st of
        None \<Rightarrow> None
      | Some st' \<Rightarrow> each_loop_scan cols elements st')"

definition pack_scan :: "nat \<Rightarrow> dims list \<Rightarrow> scan_state option" where
  "pack_scan cols elements =
     each_loop_scan cols elements \<lparr>sc_grid = [], sc_id = 0, sc_placed = []\<rparr>"

section \<open>The perfect-rectangle invariant\<close>









definition good_size :: "nat \<Rightarrow> grid \<Rightarrow> position \<Rightarrow> dims \<Rightarrow> bool" where
  "good_size cols g pos sz = (1 \<le> fst sz \<and> 1 \<le> snd sz \<and> isAllocable cols g sz pos)"


text \<open>
  The pinned sizes fit when, following the packing loop, each size that \<^verbatim>\<open>s.startsWith\<close>
  pins is good at the first empty cell, where its element is placed, and a size pinned
  for the last element is \<open>(1, 1)\<close>.
\<close>

fun pins_fit ::
  "settings \<Rightarrow> (nat \<Rightarrow> rat) \<Rightarrow> nat \<Rightarrow> nat \<Rightarrow> string list list \<Rightarrow> state \<Rightarrow> bool" where
  "pins_fit s rnd n i [] st = True"
| "pins_fit s rnd n i (classes # elements) st =
     ((case s_startsWith s i of
         None \<Rightarrow> True
       | Some pinned \<Rightarrow>
           good_size (s_cols s) (st_grid st) (firstEmptySpace (s_cols s) (st_grid st)) pinned \<and>
           (n - i = 1 \<longrightarrow> pinned = (1, 1))) \<and>
      pins_fit s rnd n (Suc i) elements (each_body s rnd n i classes st))"


section \<open>Properties\<close>

lemma row_get_row_set: "row_get (row_set r j v) k = (if k = j then v else row_get r k)"
  by (auto simp: row_get_def row_set_def nth_list_update nth_append)

subsection \<open>Marking\<close>

lemma row_get_Nil [simp]: "row_get [] j = None"
  by (simp add: row_get_def)

lemma row_get_mark_cols:
  "row_get (mark_cols r js v) k = (if k \<in> set js then v else row_get r k)"
  unfolding mark_cols_def
  by (induction js arbitrary: r rule: rev_induct) (auto simp: row_get_row_set)


lemma cell_mark_row:
  "cell (mark_row js ident i g) i' j =
     (if i' = i \<and> j \<in> set js then Some ident else cell g i' j)"
proof (cases "i < length g")
  case True
  then show ?thesis
    by (auto simp: mark_row_def cell_def row_get_mark_cols nth_list_update)
next
  case False
  then show ?thesis
    by (auto simp: mark_row_def Let_def cell_def row_get_mark_cols nth_list_update nth_append)
qed

lemma cell_fold_mark_row:
  "cell (fold (mark_row js ident) is g) i j =
     (if i \<in> set is \<and> j \<in> set js then Some ident else cell g i j)"
  by (induction "is" arbitrary: g rule: rev_induct) (auto simp: cell_mark_row)


lemma cell_mark:
  "cell (mark g c) i j =
     (if fst (el_pos c) \<le> i \<and> i < fst (el_pos c) + el_rows c \<and>
         snd (el_pos c) \<le> j \<and> j < snd (el_pos c) + el_cols c
      then Some (el_id c) else cell g i j)"
  by (auto simp: mark_def cell_fold_mark_row)


subsection \<open>firstEmptySpace\<close>

lemma firstEmptySpace_cols_Some:
  "firstEmptySpace_cols r js = Some j \<Longrightarrow>
     \<exists>k < length js. js ! k = j \<and> row_get r j = None \<and> (\<forall>m < k. row_get r (js ! m) \<noteq> None)"
proof (induction js)
  case Nil
  then show ?case by simp
next
  case (Cons a js)
  show ?case
  proof (cases "row_get r a = None")
    case True
    with Cons.prems have "j = a" by simp
    with True show ?thesis by (intro exI[of _ 0]) simp
  next
    case False
    with Cons.prems have "firstEmptySpace_cols r js = Some j" by simp
    from Cons.IH[OF this] obtain k where k: "k < length js" "js ! k = j" "row_get r j = None"
      "\<forall>m < k. row_get r (js ! m) \<noteq> None" by blast
    have "\<forall>m < Suc k. row_get r ((a # js) ! m) \<noteq> None"
      using k(4) False by (auto simp: nth_Cons split: nat.splits)
    with k show ?thesis by (intro exI[of _ "Suc k"]) simp
  qed
qed

lemma firstEmptySpace_cols_None:
  "firstEmptySpace_cols r js = None \<longleftrightarrow> (\<forall>j \<in> set js. row_get r j \<noteq> None)"
  by (induction js) auto

lemma firstEmptySpace_cols_upt:
  "firstEmptySpace_cols r [0..<cols] = Some j \<Longrightarrow>
     j < cols \<and> row_get r j = None \<and> (\<forall>m < j. row_get r m \<noteq> None)"
  by (drule firstEmptySpace_cols_Some) auto

lemma firstEmptySpace_rows_Some:
  "firstEmptySpace_rows cols g is = Some (i, j) \<Longrightarrow>
     \<exists>k < length is. is ! k = i \<and> firstEmptySpace_cols (g ! i) [0..<cols] = Some j \<and>
        (\<forall>m < k. firstEmptySpace_cols (g ! (is ! m)) [0..<cols] = None)"
proof (induction "is")
  case Nil
  then show ?case by simp
next
  case (Cons a "is")
  show ?case
  proof (cases "firstEmptySpace_cols (g ! a) [0..<cols]")
    case (Some j')
    with Cons.prems have "i = a" "j = j'" by simp_all
    with Some show ?thesis by (intro exI[of _ 0]) simp
  next
    case None
    with Cons.prems have "firstEmptySpace_rows cols g is = Some (i, j)" by simp
    from Cons.IH[OF this] obtain k where k: "k < length is" "is ! k = i"
      "firstEmptySpace_cols (g ! i) [0..<cols] = Some j"
      "\<forall>m < k. firstEmptySpace_cols (g ! (is ! m)) [0..<cols] = None" by blast
    have "\<forall>m < Suc k. firstEmptySpace_cols (g ! ((a # is) ! m)) [0..<cols] = None"
      using k(4) None by (auto simp: nth_Cons split: nat.splits)
    with k show ?thesis by (intro exI[of _ "Suc k"]) simp
  qed
qed

lemma firstEmptySpace_rows_None:
  "firstEmptySpace_rows cols g is = None \<longleftrightarrow>
     (\<forall>i \<in> set is. firstEmptySpace_cols (g ! i) [0..<cols] = None)"
  by (induction "is") (auto split: option.splits)

lemma firstEmptySpace_spec:
  "(case firstEmptySpace cols g of (i, j) \<Rightarrow>
      (i < length g \<and> j < cols \<and> cell g i j = None \<and>
         (\<forall>i' j'. j' < cols \<and> (i' < i \<or> (i' = i \<and> j' < j)) \<longrightarrow> cell g i' j' \<noteq> None))
      \<or>
      ((\<forall>i' j'. i' < length g \<and> j' < cols \<longrightarrow> cell g i' j' \<noteq> None) \<and>
         (i, j) = (length g, 0)))"
proof (cases "firstEmptySpace_rows cols g [0..<length g]")
  case None
  then have "\<forall>i' j'. i' < length g \<and> j' < cols \<longrightarrow> cell g i' j' \<noteq> None"
    by (auto simp: firstEmptySpace_rows_None firstEmptySpace_cols_None cell_def)
  with None show ?thesis by (simp add: firstEmptySpace_def)
next
  case (Some p)
  obtain i j where p: "p = (i, j)" by (cases p)
  from firstEmptySpace_rows_Some[OF Some[unfolded p]]
  have i: "i < length g" and c: "firstEmptySpace_cols (g ! i) [0..<cols] = Some j"
    and before: "\<forall>m < i. firstEmptySpace_cols (g ! m) [0..<cols] = None"
    by auto
  from firstEmptySpace_cols_upt[OF c]
  have j: "j < cols" "row_get (g ! i) j = None" "\<forall>m < j. row_get (g ! i) m \<noteq> None"
    by auto
  have "cell g i' j' \<noteq> None" if "j' < cols" "i' < i \<or> (i' = i \<and> j' < j)" for i' j'
  proof (cases "i' < i")
    case True
    with before have "firstEmptySpace_cols (g ! i') [0..<cols] = None" by simp
    with that(1) have "row_get (g ! i') j' \<noteq> None" by (simp add: firstEmptySpace_cols_None)
    with True i show ?thesis by (simp add: cell_def)
  next
    case False
    with that(2) j(3) i show ?thesis by (simp add: cell_def)
  qed
  with i j Some p show ?thesis by (simp add: firstEmptySpace_def cell_def)
qed

text \<open>
  C7. \<^verbatim>\<open>firstEmptySpace\<close> returns the row-major first cell without a recorded occupant
  among the materialised rows and the columns below \<^verbatim>\<open>s.cols\<close>: every cell of an earlier
  row, and every cell of the same row at a smaller column, is occupied. When every such
  cell is occupied it returns the position one row past the last materialised row, at
  column 0.
\<close>

theorem firstEmptySpace_row_major:
  "(case firstEmptySpace cols g of (i, j) \<Rightarrow>
      (i < length g \<and> j < cols \<and> cell g i j = None \<and>
         (\<forall>i' j'. j' < cols \<and> (i' < i \<or> (i' = i \<and> j' < j)) \<longrightarrow> cell g i' j' \<noteq> None))
      \<or>
      ((\<forall>i' j'. i' < length g \<and> j' < cols \<longrightarrow> cell g i' j' \<noteq> None) \<and>
         (i, j) = (length g, 0)))"
  by (rule firstEmptySpace_spec)

theorem firstEmptySpace_row_major_witness:
  "firstEmptySpace 2 [[Some 0, Some 1], [Some 2]] = (1, 1) \<and>
   cell [[Some 0, Some 1], [Some 2]] 1 1 = None \<and>
   cell [[Some 0, Some 1], [Some 2]] 1 0 \<noteq> None \<and>
   firstEmptySpace 2 [[Some 0, Some 1]] = (1, 0)"
  using firstEmptySpace_row_major[where cols=2 and g="[[Some 0, Some 1], [Some 2]]"]
  by (simp add: firstEmptySpace_def cell_def row_get_def upt_rec)

subsection \<open>The size selector\<close>

lemma shuffle_grid [simp]: "st_grid (shuffle rnd a st) = st_grid st"
  by (simp add: shuffle_def split: prod.splits)

lemma shuffle_data [simp]: "st_data (shuffle rnd a st) = st_data st"
  by (simp add: shuffle_def split: prod.splits)

lemma shuffle_id [simp]: "st_id (shuffle rnd a st) = st_id st"
  by (simp add: shuffle_def split: prod.splits)

lemma shuffle_heap:
  "st_heap (shuffle rnd a st) b =
     (if b = a then fst (shuffle_loop rnd (length (st_heap st a)) (st_calls st) (st_heap st a))
      else st_heap st b)"
  by (simp add: shuffle_def split: prod.splits)

lemma getRandomSize_loop_find:
  "getRandomSize_loop cols g pos sizes =
     (case find (\<lambda>sz. isAllocable cols g sz pos) sizes of Some sz \<Rightarrow> sz | None \<Rightarrow> (1, 1))"
  by (induction sizes) auto

text \<open>
  C6. \<^verbatim>\<open>getRandomSize(pos, elementsRemaining, sizes)\<close> returns \<open>(1, 1)\<close> whenever
  \<^verbatim>\<open>elementsRemaining == 1\<close>, whatever the pool holds; otherwise it returns the first entry
  of the shuffled pool that is allocable at \<open>pos\<close>, and \<open>(1, 1)\<close> when no entry is.
\<close>

theorem getRandomSize_first_allocable:
  "fst (getRandomSize cols rnd pos remaining sizes st) =
     (if remaining = 1 then (1, 1)
      else case find (\<lambda>sz. isAllocable cols (st_grid st) sz pos)
                  (st_heap (shuffle rnd sizes st) sizes) of
             Some sz \<Rightarrow> sz
           | None \<Rightarrow> (1, 1))"
  by (simp add: getRandomSize_def Let_def getRandomSize_loop_find)

theorem getRandomSize_first_allocable_witness:
  "fst (getRandomSize 3 (\<lambda>k. 0) (0, 1) 2 0
         \<lparr>st_grid = [[Some 0]], st_heap = (\<lambda>a. [(1, 3), (2, 2), (1, 1)]), st_calls = 0,
          st_id = 1, st_data = []\<rparr>) = (2, 2) \<and>
   fst (getRandomSize 3 (\<lambda>k. 0) (0, 1) 1 0
         \<lparr>st_grid = [[Some 0]], st_heap = (\<lambda>a. [(1, 3), (2, 2), (1, 1)]), st_calls = 0,
          st_id = 1, st_data = []\<rparr>) = (1, 1)"
  using getRandomSize_first_allocable[of 3 "\<lambda>k. 0" "(0, 1)" 2 0
          "\<lparr>st_grid = [[Some 0]], st_heap = (\<lambda>a. [(1, 3), (2, 2), (1, 1)]), st_calls = 0,
            st_id = 1, st_data = []\<rparr>"]
        getRandomSize_first_allocable[of 3 "\<lambda>k. 0" "(0, 1)" 1 0
          "\<lparr>st_grid = [[Some 0]], st_heap = (\<lambda>a. [(1, 3), (2, 2), (1, 1)]), st_calls = 0,
            st_id = 1, st_data = []\<rparr>"]
  by (simp add: shuffle_def isAllocable_def row_get_def numeral_3_eq_3 numeral_2_eq_2)

lemma randomIndex_less:
  assumes "unit_random rnd"
  shows "nat \<lfloor>rnd k * of_nat (Suc n)\<rfloor> < Suc n"
proof -
  from assms have r: "0 \<le> rnd k" "rnd k < 1" by (auto simp: unit_random_def)
  have "rnd k * of_nat (Suc n) < 1 * of_nat (Suc n)"
    using r(2) by (intro mult_strict_right_mono) auto
  then have "\<lfloor>rnd k * of_nat (Suc n)\<rfloor> < int (Suc n)"
    by (simp add: floor_less_iff)
  then show ?thesis by linarith
qed

lemma shuffle_loop_mset:
  assumes "unit_random rnd"
  shows "n \<le> length xs \<Longrightarrow> mset (fst (shuffle_loop rnd n k xs)) = mset xs"
proof (induction n arbitrary: k xs)
  case 0
  then show ?case by simp
next
  case (Suc n)
  let ?r = "nat \<lfloor>rnd k * of_nat (Suc n)\<rfloor>"
  have r: "?r < Suc n" by (rule randomIndex_less[OF assms])
  let ?ys = "xs[n := xs ! ?r, ?r := xs ! n]"
  have "mset ?ys = mset xs"
    using Suc.prems r by (intro mset_swap) linarith+
  moreover have "mset (fst (shuffle_loop rnd n (Suc k) ?ys)) = mset ?ys"
    using Suc.IH[of ?ys "Suc k"] Suc.prems by simp
  ultimately show ?case by (simp add: Let_def del: of_nat_Suc)
qed

lemma shuffle_mset:
  "unit_random rnd \<Longrightarrow> mset (st_heap (shuffle rnd a st) b) = mset (st_heap st b)"
  by (simp add: shuffle_heap shuffle_loop_mset)

lemma shuffle_set:
  "unit_random rnd \<Longrightarrow> set (st_heap (shuffle rnd a st) b) = set (st_heap st b)"
  using shuffle_mset[of rnd a st b] by (metis set_mset_mset)

lemma getRandomSize_state: "snd (getRandomSize cols rnd pos remaining sizes st) = shuffle rnd sizes st"
  by (simp add: getRandomSize_def Let_def)

text \<open>
  C9. The selector permutes the array it is given, not a copy: after
  \<^verbatim>\<open>getRandomSize(pos, elementsRemaining, sizes)\<close> the store holds, at the address passed,
  the array as the Fisher-Yates loop left it (a permutation of the old contents, as
  \<^verbatim>\<open>Math.random()\<close> is below 1), also when \<^verbatim>\<open>elementsRemaining == 1\<close> and the result is
  \<open>(1, 1)\<close>. The packing loop passes \<^verbatim>\<open>s.sizes\<close>, so each iteration leaves the configured
  global pool reordered.
\<close>

theorem getRandomSize_shuffles_in_place:
  "snd (getRandomSize cols rnd pos remaining sizes st) = shuffle rnd sizes st \<and>
   st_heap (shuffle rnd sizes st) sizes =
     fst (shuffle_loop rnd (length (st_heap st sizes)) (st_calls st) (st_heap st sizes)) \<and>
   fst (getRandomSize cols rnd pos 1 sizes st) = (1, 1) \<and>
   (unit_random rnd \<longrightarrow> mset (st_heap (shuffle rnd sizes st) sizes) = mset (st_heap st sizes)) \<and>
   (s_classSizes s = [] \<longrightarrow>
      st_heap (each_body s rnd n i classes st) (s_sizes s) =
        st_heap (shuffle rnd (s_sizes s) st) (s_sizes s))"
proof -
  have a: "st_heap (each_body s rnd n i classes st) (s_sizes s) =
          st_heap (shuffle rnd (s_sizes s) st) (s_sizes s)" if "s_classSizes s = []"
    using that
    by (simp add: each_body_def resolve_size_def Let_def getRandomSize_def split: prod.splits)
  have b: "fst (getRandomSize cols rnd pos 1 sizes st) = (1, 1)"
    by (simp add: getRandomSize_def Let_def)
  have c: "st_heap (shuffle rnd sizes st) sizes =
     fst (shuffle_loop rnd (length (st_heap st sizes)) (st_calls st) (st_heap st sizes))"
    by (simp add: shuffle_heap)
  from a b c show ?thesis
    using getRandomSize_state[of cols rnd pos remaining sizes st] shuffle_mset[of rnd sizes st sizes]
    by blast
qed

theorem getRandomSize_shuffles_in_place_witness:
  "st_heap (each_body \<lparr>s_cols = 3, s_sizes = 0, s_startsWith = Map.empty, s_classSizes = []\<rparr>
              (\<lambda>k. 0) 1 0 []
              \<lparr>st_grid = [], st_heap = (\<lambda>a. [(1, 1), (1, 2), (2, 2)]), st_calls = 0,
               st_id = 0, st_data = []\<rparr>) 0 = [(1, 2), (2, 2), (1, 1)] \<and>
   st_data (each_body \<lparr>s_cols = 3, s_sizes = 0, s_startsWith = Map.empty, s_classSizes = []\<rparr>
              (\<lambda>k. 0) 1 0 []
              \<lparr>st_grid = [], st_heap = (\<lambda>a. [(1, 1), (1, 2), (2, 2)]), st_calls = 0,
               st_id = 0, st_data = []\<rparr>) =
     [\<lparr>el_id = 0, el_pos = (0, 0), el_rows = 1, el_cols = 1\<rparr>] \<and>
   unit_random (\<lambda>k. 0)"
  using getRandomSize_shuffles_in_place[where s = "\<lparr>s_cols = 3, s_sizes = 0,
            s_startsWith = Map.empty, s_classSizes = []\<rparr>"
          and rnd = "\<lambda>k. 0" and n = 1 and i = 0 and classes = "[]" and sizes = 0
          and cols = 3 and pos = "(0, 0)" and remaining = 1
          and st = "\<lparr>st_grid = [], st_heap = (\<lambda>a. [(1, 1), (1, 2), (2, 2)]), st_calls = 0,
               st_id = 0, st_data = []\<rparr>"]
  by (simp add: unit_random_def shuffle_def each_body_def resolve_size_def getRandomSize_def
        firstEmptySpace_def numeral_3_eq_3 numeral_2_eq_2 Let_def)

subsection \<open>Size resolution in the packing loop\<close>

lemma classSizes_loop_keep:
  "\<forall>(key, pool) \<in> set cs. key \<in> set classes \<longrightarrow> sz \<in> set (st_heap st pool) \<Longrightarrow>
     classSizes_loop cols rnd pos remaining classes cs sz st = (sz, st)"
  by (induction cs) auto

lemma resolve_size_pinned:
  assumes "unit_random rnd" "s_startsWith s i = Some pinned"
    and "\<forall>(key, pool) \<in> set (s_classSizes s). key \<in> set classes \<longrightarrow> pinned \<in> set (st_heap st pool)"
  shows "resolve_size s rnd n i classes pos st = (pinned, shuffle rnd (s_sizes s) st)"
proof -
  let ?st1 = "shuffle rnd (s_sizes s) st"
  have "\<forall>(key, pool) \<in> set (s_classSizes s). key \<in> set classes \<longrightarrow> pinned \<in> set (st_heap ?st1 pool)"
    using assms(3) shuffle_set[OF assms(1)] by auto
  from classSizes_loop_keep[OF this] show ?thesis
    using assms(2) getRandomSize_state[of "s_cols s" rnd pos "n - i" "s_sizes s" st]
    by (simp add: resolve_size_def split: prod.splits) (metis snd_conv)
qed




text \<open>
  The claim C4 as stated (an override wider than \<^verbatim>\<open>s.cols\<close> raises a configuration error
  and nothing is placed) fails: with two columns and the first element pinned to
  \<open>(1, 3)\<close> the call returns, the element keeps three columns and the cell at column 2 is
  marked.
\<close>

theorem wide_override_counterexample:
  "(case layout \<lparr>s_cols = 2, s_sizes = 0, s_startsWith = [0 \<mapsto> (1, 3)], s_classSizes = []\<rparr>
             (\<lambda>a. [(1, 1)]) (\<lambda>k. 0) [[], []] of
        Inl err \<Rightarrow> False
      | Inr r \<Rightarrow> out_data r = [\<lparr>el_id = 0, el_pos = (0, 0), el_rows = 1, el_cols = 3\<rparr>,
                               \<lparr>el_id = 1, el_pos = (1, 0), el_rows = 1, el_cols = 2\<rparr>] \<and>
                 out_grid r = [[Some 0, Some 0, Some 0], [Some 1, Some 1]])"
  by code_simp

text \<open>
  C4, as the code has it. No width check is applied to a pinned size, and no error is
  raised for it: the element is recorded at the first empty cell with the pinned size
  and every cell of its rectangle is marked with its id, whatever \<^verbatim>\<open>s.cols\<close> is (the class
  step aside, as in C3).
\<close>

theorem wide_override_placed:
  assumes "unit_random rnd" "s_startsWith s i = Some (r, c)"
    and "\<forall>(key, pool) \<in> set (s_classSizes s). key \<in> set classes \<longrightarrow> (r, c) \<in> set (st_heap st pool)"
    and "pos = firstEmptySpace (s_cols s) (st_grid st)"
  shows "st_data (each_body s rnd n i classes st) =
           st_data st @ [\<lparr>el_id = st_id st, el_pos = pos, el_rows = r, el_cols = c\<rparr>] \<and>
         (\<forall>x y. fst pos \<le> x \<and> x < fst pos + r \<and> snd pos \<le> y \<and> y < snd pos + c \<longrightarrow>
                 cell (st_grid (each_body s rnd n i classes st)) x y = Some (st_id st))"
  using resolve_size_pinned[OF assms(1,2,3)] assms(4)
  by (simp add: each_body_def Let_def cell_mark)

theorem wide_override_placed_witness:
  "st_data (each_body \<lparr>s_cols = 2, s_sizes = 0, s_startsWith = [0 \<mapsto> (1, 3)],
                       s_classSizes = []\<rparr> (\<lambda>k. 0) 2 0 []
                \<lparr>st_grid = [], st_heap = (\<lambda>a. [(1, 1)]),
                 st_calls = 0, st_id = 0, st_data = []\<rparr>) =
     [\<lparr>el_id = 0, el_pos = (0, 0), el_rows = 1, el_cols = 3\<rparr>] \<and>
   cell (st_grid (each_body \<lparr>s_cols = 2, s_sizes = 0, s_startsWith = [0 \<mapsto> (1, 3)],
                       s_classSizes = []\<rparr> (\<lambda>k. 0) 2 0 []
                \<lparr>st_grid = [], st_heap = (\<lambda>a. [(1, 1)]),
                 st_calls = 0, st_id = 0, st_data = []\<rparr>)) 0 2 = Some 0"
  using wide_override_placed[where rnd = "\<lambda>k. 0" and
      s = "\<lparr>s_cols = 2, s_sizes = 0, s_startsWith = [0 \<mapsto> (1, 3)],
                       s_classSizes = []\<rparr>" and i = 0 and r = 1 and c = 3
      and classes = "[]" and n = 2 and pos = "(0, 0)" and
      st = "\<lparr>st_grid = [], st_heap = (\<lambda>a. [(1, 1)]),
                 st_calls = 0, st_id = 0, st_data = []\<rparr>"]
  by (simp add: unit_random_def firstEmptySpace_def)

subsection \<open>The whole call\<close>

text \<open>
  C8. With no element the call returns without an error: no placement, no vertical and
  no horizontal line, and a grid of zero rows. (The check of the container's CSS position
  precedes it and does not depend on the elements.)
\<close>

theorem layout_no_elements:
  "layout s h rnd [] =
     Inr \<lparr>out_grid = [], out_data = [], out_vLines = [], out_hLines = [], out_heap = h\<rparr> \<and>
   totalRows \<lparr>out_grid = [], out_data = [], out_vLines = [], out_hLines = [], out_heap = h\<rparr> = 0 \<and>
   (position \<noteq> Fixed \<longrightarrow> fn_grid position s h rnd [] = layout s h rnd [])"
  by (simp add: layout_def totalRows_def fn_grid_def)

theorem layout_no_elements_witness:
  "fn_grid Static \<lparr>s_cols = 3, s_sizes = 0, s_startsWith = Map.empty, s_classSizes = []\<rparr>
      (\<lambda>a. [(1, 1)]) (\<lambda>k. 0) [] =
     Inr \<lparr>out_grid = [], out_data = [], out_vLines = [], out_hLines = [],
          out_heap = (\<lambda>a. [(1, 1)])\<rparr>"
  using layout_no_elements[where position = Static and
      s = "\<lparr>s_cols = 3, s_sizes = 0, s_startsWith = Map.empty, s_classSizes = []\<rparr>"
      and h = "\<lambda>a. [(1, 1)]" and rnd = "\<lambda>k. 0"]
  by simp

text \<open>
  The claim C2 as stated fails on the packer that takes per-index overrides: it places
  the third element at the first empty cell \<open>(0, 3)\<close> with its three columns, the fourth
  at \<open>(1, 0)\<close>, stretches the fourth to the last column and ends with three rows.
\<close>

theorem scenario_A_counterexample:
  "(case layout \<lparr>s_cols = 4, s_sizes = 0,
                s_startsWith = [0 \<mapsto> (1, 1), 1 \<mapsto> (1, 2), 2 \<mapsto> (1, 3), 3 \<mapsto> (2, 1)],
                s_classSizes = []\<rparr>
             (\<lambda>a. [(1, 1)]) (\<lambda>k. 0) [[], [], [], []] of
        Inl err \<Rightarrow> False
      | Inr r \<Rightarrow> out_data r ! 2 = \<lparr>el_id = 2, el_pos = (0, 3), el_rows = 1, el_cols = 3\<rparr> \<and>
                 out_data r ! 3 = \<lparr>el_id = 3, el_pos = (1, 0), el_rows = 2, el_cols = 4\<rparr> \<and>
                 totalRows r = 3)"
  by code_simp

text \<open>
  C2, as the code has it. With four columns, the pool \<open>[(1, 1)]\<close> and the overrides
  \<open>(1, 1)\<close>, \<open>(1, 2)\<close>, \<open>(1, 3)\<close>, \<open>(2, 1)\<close>, the first-fit packer yields the placements
  \<open>(0, 0)\<close>, \<open>(0, 1)\<close>, \<open>(0, 3)\<close> and \<open>(1, 0)\<close>, the last one stretched to \<open>(2, 4)\<close>, and
  three rows. The placements of the claim, and two rows, are what the position-scanning
  variant computes for elements of these four sizes.
\<close>

theorem scenario_A_both_variants:
  "(case layout \<lparr>s_cols = 4, s_sizes = 0,
                s_startsWith = [0 \<mapsto> (1, 1), 1 \<mapsto> (1, 2), 2 \<mapsto> (1, 3), 3 \<mapsto> (2, 1)],
                s_classSizes = []\<rparr>
             (\<lambda>a. [(1, 1)]) (\<lambda>k. 0) [[], [], [], []] of
        Inl err \<Rightarrow> False
      | Inr r \<Rightarrow> out_data r = [\<lparr>el_id = 0, el_pos = (0, 0), el_rows = 1, el_cols = 1\<rparr>,
                               \<lparr>el_id = 1, el_pos = (0, 1), el_rows = 1, el_cols = 2\<rparr>,
                               \<lparr>el_id = 2, el_pos = (0, 3), el_rows = 1, el_cols = 3\<rparr>,
                               \<lparr>el_id = 3, el_pos = (1, 0), el_rows = 2, el_cols = 4\<rparr>] \<and>
                 totalRows r = 3) \<and>
   (case pack_scan 4 [(1, 1), (1, 2), (1, 3), (2, 1)] of
        None \<Rightarrow> False
      | Some st \<Rightarrow> sc_placed st = [\<lparr>el_id = 1, el_pos = (0, 0), el_rows = 1, el_cols = 1\<rparr>,
                               \<lparr>el_id = 2, el_pos = (0, 1), el_rows = 1, el_cols = 2\<rparr>,
                               \<lparr>el_id = 3, el_pos = (1, 0), el_rows = 1, el_cols = 3\<rparr>,
                               \<lparr>el_id = 4, el_pos = (0, 3), el_rows = 2, el_cols = 1\<rparr>] \<and>
                 length (sc_grid st) = 2)"
  by code_simp

subsection \<open>The position-scanning loop\<close>

lemma fresh_row_allocable:
  assumes "snd element \<le> cols" "length g \<le> i"
  shows "isAllocable_scan cols g element (i, 0)"
  using assms by (auto simp: isAllocable_scan_def list_all_iff)

lemma too_wide_not_allocable:
  "cols < snd element \<Longrightarrow> \<not> isAllocable_scan cols g element pos"
  by (simp add: isAllocable_scan_def)

lemma find_position_step:
  "\<not> isAllocable_scan cols g element (i, j) \<Longrightarrow>
     find_position cols g element (i, j) =
       (if j < cols then find_position cols g element (i, j + 1)
        else find_position cols g element (i + 1, 0))"
  by (subst find_position.simps) simp

lemma find_position_stop:
  "isAllocable_scan cols g element pos \<Longrightarrow> find_position cols g element pos = Some pos"
  by (subst find_position.simps) simp

lemma find_position_row:
  assumes next_row: "\<exists>p. find_position cols g element (i + 1, 0) = Some p \<and> isAllocable_scan cols g element p"
  shows "\<exists>p. find_position cols g element (i, j) = Some p \<and> isAllocable_scan cols g element p"
proof (induction "cols - j" arbitrary: j)
  case 0
  show ?case
  proof (cases "isAllocable_scan cols g element (i, j)")
    case True
    then show ?thesis by (auto simp: find_position_stop)
  next
    case False
    with 0 next_row show ?thesis by (simp add: find_position_step)
  qed
next
  case (Suc d)
  show ?case
  proof (cases "isAllocable_scan cols g element (i, j)")
    case True
    then show ?thesis by (auto simp: find_position_stop)
  next
    case False
    from Suc.hyps(2) have "j < cols" "d = cols - (j + 1)" by simp_all
    with Suc.hyps(1)[of "j + 1"] False show ?thesis by (simp add: find_position_step)
  qed
qed

lemma find_position_returns:
  assumes "snd element \<le> cols"
  shows "\<exists>p. find_position cols g element (i, j) = Some p \<and> isAllocable_scan cols g element p"
proof (induction "length g - i" arbitrary: i j)
  case 0
  then have "length g \<le> i + 1" by simp
  from fresh_row_allocable[OF assms this]
  have "\<exists>p. find_position cols g element (i + 1, 0) = Some p \<and> isAllocable_scan cols g element p"
    by (auto simp: find_position_stop)
  then show ?case by (rule find_position_row)
next
  case (Suc d)
  then have "d = length g - (i + 1)" by simp
  from Suc.hyps(1)[OF this]
  have "\<exists>p. find_position cols g element (i + 1, 0) = Some p \<and> isAllocable_scan cols g element p" .
  then show ?case by (rule find_position_row)
qed

lemma allocable_scan_width:
  "isAllocable_scan cols g element pos \<Longrightarrow> snd element \<le> cols"
  by (simp add: isAllocable_scan_def split: if_splits)

lemma find_position_Some_width:
  assumes "find_position cols g element pos = Some p"
  shows "snd element \<le> cols"
proof (rule find_position.raw_induct[where P = "\<lambda>cols g element pos p. snd element \<le> cols",
        OF _ assms])
  fix f :: "nat \<Rightarrow> grid \<Rightarrow> dims \<Rightarrow> position \<Rightarrow> position option"
    and cols g element pos p
  assume IH: "\<And>cols g element pos p. f cols g element pos = Some p \<Longrightarrow> snd element \<le> cols"
    and step: "(if \<not> isAllocable_scan cols g element pos
      then if snd pos < cols then f cols g element (fst pos, snd pos + 1)
           else f cols g element (fst pos + 1, 0)
      else Some pos) = Some p"
  show "snd element \<le> cols"
  proof (cases "isAllocable_scan cols g element pos")
    case True
    then show ?thesis by (rule allocable_scan_width)
  next
    case False
    with step IH show ?thesis by (auto split: if_splits)
  qed
qed

text \<open>
  C10. In the position-scanning variant the loop that looks for the first fitting
  position returns for every element whose column span is at most \<^verbatim>\<open>s.cols\<close>, whatever
  the grid holds and wherever the scan starts: the first column of the first row that
  is not materialised is allocable for it, and the position returned is allocable. For
  an element wider than \<^verbatim>\<open>s.cols\<close> no position is allocable and the loop does not return.
\<close>

theorem find_position_terminates_iff_fits:
  "(snd element \<le> cols \<longrightarrow>
      isAllocable_scan cols g element (length g, 0) \<and>
      (\<exists>p. find_position cols g element pos = Some p \<and> isAllocable_scan cols g element p)) \<and>
   (cols < snd element \<longrightarrow>
      (\<forall>p. \<not> isAllocable_scan cols g element p) \<and> find_position cols g element pos = None)"
proof (intro conjI impI)
  assume "snd element \<le> cols"
  then show "isAllocable_scan cols g element (length g, 0)"
    by (simp add: fresh_row_allocable)
  from \<open>snd element \<le> cols\<close> find_position_returns[of element cols g "fst pos" "snd pos"]
  show "\<exists>p. find_position cols g element pos = Some p \<and> isAllocable_scan cols g element p"
    by simp
next
  assume w: "cols < snd element"
  then show "\<forall>p. \<not> isAllocable_scan cols g element p"
    by (simp add: too_wide_not_allocable)
  show "find_position cols g element pos = None"
  proof (cases "find_position cols g element pos")
    case None
    then show ?thesis .
  next
    case (Some p)
    from find_position_Some_width[OF this] w show ?thesis by simp
  qed
qed

theorem find_position_terminates_iff_fits_witness:
  "find_position 4 [[Some 1, Some 2, Some 2]] (1, 3) (0, 0) = Some (1, 0) \<and>
   find_position 4 [[Some 1, Some 2, Some 2]] (1, 5) (0, 0) = None \<and>
   pack_scan 4 [(1, 1), (1, 5)] = None"
proof -
  have a: "find_position 4 [[Some 1, Some 2, Some 2]] (1, 3) (0, 0) = Some (1, 0)"
    by code_simp
  have b: "find_position 4 g (1, 5) (0, 0) = None" for g
    using find_position_terminates_iff_fits[of "(1, 5)" 4 g "(0, 0)"] by simp
  have c: "find_position 4 [] (1, 1) (0, 0) = Some (0, 0)"
    by code_simp
  have "pack_scan 4 [(1, 1), (1, 5)] = None"
    using b c by (simp add: pack_scan_def each_body_scan_def Let_def)
  with a b show ?thesis by simp
qed

subsection \<open>The line passes\<close>

lemma fold_invariant:
  assumes "P init" "\<And>a acc. P acc \<Longrightarrow> P (f a acc)"
  shows "P (fold f xs init)"
  using assms(1) by (induction xs arbitrary: init) (auto intro: assms(2))

lemma vertical_inner_run:
  assumes "vertical_inner g y x run = (x', run')"
    and "case run of None \<Rightarrow> True | Some (start, e) \<Rightarrow> Suc e = x \<and> vseg_ok g (y, start, e)"
  shows "case run' of None \<Rightarrow> True | Some (start, e) \<Rightarrow> vseg_ok g (y, start, e)"
  using assms
proof (induction g y x run rule: vertical_inner.induct)
  case (1 g y x run)
  show ?case
  proof (cases "isRightFrontier g x y")
    case False
    with "1.prems" show ?thesis
      by (subst (asm) vertical_inner.simps) (auto split: option.splits)
  next
    case True
    let ?run1 = "case run of None \<Rightarrow> Some (x, x) | Some (start, e) \<Rightarrow> Some (start, x)"
    from True "1.prems"(1) have step: "vertical_inner g y (Suc x) ?run1 = (x', run')"
      by (subst (asm) vertical_inner.simps) simp
    have "case ?run1 of None \<Rightarrow> True | Some (start, e) \<Rightarrow> Suc e = Suc x \<and> vseg_ok g (y, start, e)"
    proof (cases run)
      case None
      with True show ?thesis by (auto simp: vseg_ok_def)
    next
      case (Some p)
      obtain start e where p: "p = (start, e)" by (cases p)
      from "1.prems"(2) Some p have e: "Suc e = x" and ok: "vseg_ok g (y, start, e)" by auto
      have "isRightFrontier g r y" if "start \<le> r" "r \<le> x" for r
      proof (cases "r = x")
        case True
        with \<open>isRightFrontier g x y\<close> show ?thesis by simp
      next
        case False
        with that e have "r \<le> e" by simp
        with ok that(1) show ?thesis by (auto simp: vseg_ok_def)
      qed
      with Some p show ?thesis by (simp add: vseg_ok_def)
    qed
    from "1.IH"[OF True step this] show ?thesis .
  qed
qed

lemma vertical_outer_ok:
  "\<forall>v \<in> set acc. vseg_ok g v \<Longrightarrow> \<forall>v \<in> set (vertical_outer g y x acc). vseg_ok g v"
proof (induction g y x acc rule: vertical_outer.induct)
  case (1 g y x acc)
  show ?case
  proof (cases "x < length g")
    case False
    with "1.prems" show ?thesis by (subst vertical_outer.simps) simp
  next
    case True
    obtain x' run' where inner: "vertical_inner g y x None = (x', run')"
      by (cases "vertical_inner g y x None")
    from vertical_inner_run[OF inner]
    have run': "case run' of None \<Rightarrow> True | Some (start, e) \<Rightarrow> vseg_ok g (y, start, e)" by simp
    show ?thesis
    proof (cases run')
      case None
      from "1.IH"(1)[OF True inner[symmetric] None "1.prems"] True inner None
      show ?thesis by (subst vertical_outer.simps) simp
    next
      case (Some p)
      obtain start e where p: "p = (start, e)" by (cases p)
      from run' Some p "1.prems" have "\<forall>v \<in> set (acc @ [(y, start, e)]). vseg_ok g v" by auto
      from "1.IH"(2)[OF True inner[symmetric] Some p[symmetric] this] True inner Some p
      show ?thesis by (subst vertical_outer.simps) simp
    qed
  qed
qed

lemma vertical_lines_ok: "v \<in> set (vertical_lines g cols) \<Longrightarrow> vseg_ok g v"
proof -
  have "\<forall>v \<in> set (vertical_lines g cols). vseg_ok g v"
    unfolding vertical_lines_def
    by (rule fold_invariant) (auto intro: vertical_outer_ok[rule_format])
  then show "v \<in> set (vertical_lines g cols) \<Longrightarrow> vseg_ok g v" by blast
qed

lemma horizontal_inner_ok:
  assumes "horizontal_inner g x y run acc = (y', run', acc')"
    and "\<forall>h \<in> set acc. hseg_ok g h"
    and "case run of None \<Rightarrow> True | Some (start, e) \<Rightarrow> Suc e = y \<and> hrun_ok g x start e"
  shows "(\<forall>h \<in> set acc'. hseg_ok g h) \<and>
         (case run' of None \<Rightarrow> True | Some (start, e) \<Rightarrow> hseg_ok g (x, start, e))"
  using assms
proof (induction g x y run acc rule: horizontal_inner.induct)
  case (1 g x y run acc)
  show ?case
  proof (cases "isTopFrontier g x y")
    case False
    with "1.prems"(1) have eq: "y' = Suc y" "run' = run" "acc' = acc"
      by (subst (asm) horizontal_inner.simps, simp)+
    have "case run of None \<Rightarrow> True | Some (start, e) \<Rightarrow> hseg_ok g (x, start, e)"
    proof (cases run)
      case None
      then show ?thesis by simp
    next
      case (Some p)
      obtain start e where p: "p = (start, e)" by (cases p)
      from "1.prems"(3) Some p have "Suc e = y" "hrun_ok g x start e" by auto
      with False Some p show ?thesis by (auto simp: hseg_ok_def)
    qed
    with eq "1.prems"(2) show ?thesis by simp
  next
    case True
    show ?thesis
    proof (cases run)
      case None
      from True None "1.prems"(1)
      have step: "horizontal_inner g x (Suc y) (Some (y, y)) acc = (y', run', acc')"
        by (subst (asm) horizontal_inner.simps) simp
      have "case Some (y, y) of None \<Rightarrow> True
            | Some (start, e) \<Rightarrow> Suc e = Suc y \<and> hrun_ok g x start e"
        using True by (auto simp: hrun_ok_def)
      from "1.IH"(1)[OF True None step "1.prems"(2) this] show ?thesis .
    next
      case (Some p)
      obtain start e where p: "p = (start, e)" by (cases p)
      from "1.prems"(3) Some p have e: "Suc e = y" and ok: "hrun_ok g x start e" by auto
      then have y1: "y - 1 = e" by simp
      show ?thesis
      proof (cases "isRightFrontier g x (y - 1) \<and> isRightFrontier g (x + 1) (y - 1)")
        case split: True
        from True Some p split "1.prems"(1)
        have step: "horizontal_inner g x (Suc y) (Some (y, y)) (acc @ [(x, start, e)])
                      = (y', run', acc')"
          by (subst (asm) horizontal_inner.simps) simp
        have "hseg_ok g (x, start, e)"
          using ok split True e y1 by (auto simp: hseg_ok_def)
        with "1.prems"(2) have acc: "\<forall>h \<in> set (acc @ [(x, start, e)]). hseg_ok g h" by auto
        have "case Some (y, y) of None \<Rightarrow> True
              | Some (start, e) \<Rightarrow> Suc e = Suc y \<and> hrun_ok g x start e"
          using True by (auto simp: hrun_ok_def)
        from "1.IH"(2)[OF True Some p[symmetric] split step acc this] show ?thesis .
      next
        case nosplit: False
        from True Some p nosplit "1.prems"(1)
        have step: "horizontal_inner g x (Suc y) (Some (start, y)) acc = (y', run', acc')"
          by (subst (asm) horizontal_inner.simps) auto
        have top: "isTopFrontier g x c" if "start \<le> c" "c \<le> y" for c
        proof (cases "c = y")
          case True
          with \<open>isTopFrontier g x y\<close> show ?thesis by simp
        next
          case False
          with that e have "c \<le> e" by simp
          with ok that(1) show ?thesis by (auto simp: hrun_ok_def)
        qed
        have right: "\<not> (isRightFrontier g x c \<and> isRightFrontier g (x + 1) c)"
          if "start \<le> c" "c < y" for c
        proof (cases "c = e")
          case True
          with nosplit y1 show ?thesis by simp
        next
          case False
          with that e have "c < e" by simp
          with ok that(1) show ?thesis by (auto simp: hrun_ok_def)
        qed
        have "case Some (start, y) of None \<Rightarrow> True
              | Some (start, e) \<Rightarrow> Suc e = Suc y \<and> hrun_ok g x start e"
          using top right by (auto simp: hrun_ok_def)
        from "1.IH"(3)[OF True Some p[symmetric] nosplit step "1.prems"(2) this] show ?thesis .
      qed
    qed
  qed
qed

lemma horizontal_outer_ok:
  "\<forall>h \<in> set acc. hseg_ok g h \<Longrightarrow> \<forall>h \<in> set (horizontal_outer g cols x y acc). hseg_ok g h"
proof (induction g cols x y acc rule: horizontal_outer.induct)
  case (1 g cols x y acc)
  show ?case
  proof (cases "x < length g \<and> y < cols")
    case False
    then have "horizontal_outer g cols x y acc = acc"
      by (subst horizontal_outer.simps) (simp only: if_False)
    with "1.prems" show ?thesis by simp
  next
    case True
    obtain y' run' acc' where inner: "horizontal_inner g x y None acc = (y', run', acc')"
      by (cases "horizontal_inner g x y None acc")
    from horizontal_inner_ok[OF inner "1.prems"]
    have acc': "\<forall>h \<in> set acc'. hseg_ok g h"
      and run': "case run' of None \<Rightarrow> True | Some (start, e) \<Rightarrow> hseg_ok g (x, start, e)"
      by simp_all
    show ?thesis
    proof (cases run')
      case None
      from "1.IH"(1)[OF True inner[symmetric] refl None acc'] True inner None
      show ?thesis by (subst horizontal_outer.simps) simp
    next
      case (Some p)
      obtain start e where p: "p = (start, e)" by (cases p)
      from run' Some p acc' have "\<forall>h \<in> set (acc' @ [(x, start, e)]). hseg_ok g h" by auto
      from "1.IH"(2)[OF True inner[symmetric] refl Some p[symmetric] this] True inner Some p
      show ?thesis by (subst horizontal_outer.simps) simp
    qed
  qed
qed

lemma horizontal_lines_ok: "h \<in> set (horizontal_lines g cols) \<Longrightarrow> hseg_ok g h"
proof -
  have "\<forall>h \<in> set (horizontal_lines g cols). hseg_ok g h"
    unfolding horizontal_lines_def
    by (rule fold_invariant) (auto intro: horizontal_outer_ok[rule_format])
  then show "h \<in> set (horizontal_lines g cols) \<Longrightarrow> hseg_ok g h" by blast
qed

text \<open>
  C5. No horizontal line of the output crosses a vertical line of the output at an
  interior point, for every grid and column count. Every column of a horizontal line is a
  top frontier; inside a line no column boundary has a right frontier in both the row
  above and the row below (there the run was split); and a line that ends although the
  next column is a top frontier as well ends at such a boundary: runs are split exactly
  there.
\<close>

theorem lines_do_not_cross:
  assumes "h \<in> set (horizontal_lines g cols)"
  shows "(\<forall>v \<in> set (vertical_lines g cols). \<not> crosses h v) \<and>
         (case h of (x, start, e) \<Rightarrow>
            (\<forall>c. start \<le> c \<and> c \<le> e \<longrightarrow> isTopFrontier g x c) \<and>
            (\<forall>c. start \<le> c \<and> c < e \<longrightarrow>
                 \<not> (isRightFrontier g x c \<and> isRightFrontier g (x + 1) c)) \<and>
            (isTopFrontier g x (e + 1) \<longrightarrow>
                 isRightFrontier g x e \<and> isRightFrontier g (x + 1) e))"
proof -
  obtain x start e where h: "h = (x, start, e)" by (cases h)
  from horizontal_lines_ok[OF assms] h have hok: "hseg_ok g (x, start, e)" by simp
  have "\<not> crosses h v" if "v \<in> set (vertical_lines g cols)" for v
  proof
    assume c: "crosses h v"
    obtain y vstart vend where v: "v = (y, vstart, vend)" by (cases v)
    from c h v have b: "start \<le> y" "y < e" "vstart \<le> x" "x < vend"
      by (simp_all add: crosses_def)
    from vertical_lines_ok[OF that] v b(3,4)
    have "isRightFrontier g x y" "isRightFrontier g (x + 1) y"
      by (auto simp: vseg_ok_def)
    with hok b(1,2) show False by (auto simp: hseg_ok_def hrun_ok_def)
  qed
  with hok h show ?thesis by (auto simp: hseg_ok_def hrun_ok_def)
qed

theorem lines_do_not_cross_witness:
  "horizontal_lines [[Some 0, Some 1], [Some 2, Some 3]] 2 = [(0, 0, 0), (0, 1, 1)] \<and>
   vertical_lines [[Some 0, Some 1], [Some 2, Some 3]] 2 = [(0, 0, 1)] \<and>
   \<not> crosses (0, 0, 0) (0, 0, 1) \<and> \<not> crosses (0, 1, 1) (0, 0, 1) \<and>
   crosses (0, 0, 1) (0, 0, 1) \<and>
   isRightFrontier [[Some 0, Some 1], [Some 2, Some 3]] 0 0 \<and>
   isRightFrontier [[Some 0, Some 1], [Some 2, Some 3]] 1 0"
proof -
  let ?g = "[[Some 0, Some 1], [Some 2, Some (3::nat)]]"
  have hl: "horizontal_lines ?g 2 = [(0, 0, 0), (0, 1, 1)]" by code_simp
  have vl: "vertical_lines ?g 2 = [(0, 0, 1)]" by code_simp
  have "(0, 0, 0) \<in> set (horizontal_lines ?g 2)" "(0, 1, 1) \<in> set (horizontal_lines ?g 2)"
    unfolding hl by simp_all
  from lines_do_not_cross[OF this(1)] lines_do_not_cross[OF this(2)]
  have "\<not> crosses (0, 0, 0) (0, 0, 1)" "\<not> crosses (0, 1, 1) (0, 0, 1)"
    unfolding vl by simp_all
  moreover have "crosses (0, 0, 1) (0, 0, 1)" by (simp add: crosses_def)
  moreover have "isRightFrontier ?g 0 0" "isRightFrontier ?g 1 0"
    by (simp_all add: isRightFrontier_def row_get_def)
  ultimately show ?thesis using hl vl by simp
qed

subsection \<open>The loops of the normaliser\<close>







subsection \<open>Consistency and shrinking\<close>












subsection \<open>The three passes\<close>







subsection \<open>The packing loop\<close>













lemma no_pins_fit:
  "\<forall>k. i \<le> k \<and> k < i + length elements \<longrightarrow> s_startsWith s k = None \<Longrightarrow>
     pins_fit s rnd n i elements st"
  by (induction elements arbitrary: i st) auto

subsection \<open>The perfect rectangle\<close>




end
